theory Spec2Isabelle
  imports Complex_Main "HOL-Library.Sublist"
begin

section \<open>Media type utilities (src/lib/mediaUtils.ts)\<close>

text \<open>
  JavaScript strings are modelled as \<^typ>\<open>string\<close>. \<open>toLowerCase\<close> is modelled on the
  ASCII letters; every other character is left as it is.
\<close>

definition toLowerChar :: "char \<Rightarrow> char" where
  "toLowerChar c =
     (case map_of (zip ''ABCDEFGHIJKLMNOPQRSTUVWXYZ'' ''abcdefghijklmnopqrstuvwxyz'') c of
        None \<Rightarrow> c
      | Some l \<Rightarrow> l)"

definition toLowerCase :: "string \<Rightarrow> string" where
  "toLowerCase s = map toLowerChar s"

text \<open>\<open>s.startsWith(p)\<close> and \<open>s.includes(t)\<close> of JavaScript.\<close>

fun startsWith :: "string \<Rightarrow> string \<Rightarrow> bool" where
  "startsWith s [] = True"
| "startsWith [] (p # ps) = False"
| "startsWith (c # cs) (p # ps) = (c = p \<and> startsWith cs ps)"

fun str_includes :: "string \<Rightarrow> string \<Rightarrow> bool" where
  "str_includes [] t = (t = [])"
| "str_includes (c # cs) t = (startsWith (c # cs) t \<or> str_includes cs t)"

text \<open>The part of the browser's \<open>File\<close> object that the utilities read.\<close>

record File =
  file_name :: string
  file_type :: string
  file_size :: nat

definition isVideoFile :: "File \<Rightarrow> bool" where
  "isVideoFile file = startsWith (file_type file) ''video/''"

definition isImageFile :: "File \<Rightarrow> bool" where
  "isImageFile file = startsWith (file_type file) ''image/''"

definition isValidMediaFile :: "File \<Rightarrow> bool" where
  "isValidMediaFile file \<longleftrightarrow> isImageFile file \<or> isVideoFile file"

definition MAX_IMAGE_SIZE :: nat where
  "MAX_IMAGE_SIZE = 10 * 1024 * 1024"

definition MAX_VIDEO_SIZE :: nat where
  "MAX_VIDEO_SIZE = 50 * 1024 * 1024"

definition validateMediaFile :: "File \<Rightarrow> bool \<times> string option" where
  "validateMediaFile file =
     (if \<not> isValidMediaFile file then (False, Some ''Please select an image or video file'')
      else if isImageFile file \<and> file_size file > MAX_IMAGE_SIZE
        then (False, Some ''Image must be less than 10MB'')
      else if isVideoFile file \<and> file_size file > MAX_VIDEO_SIZE
        then (False, Some ''Video must be less than 50MB'')
      else (True, None))"

definition videoExtensions :: "string list" where
  "videoExtensions = [''.mp4'', ''.webm'', ''.mov'', ''.avi'', ''.mkv'', ''.m4v'']"

definition isVideoUrl :: "string \<Rightarrow> bool" where
  "isVideoUrl url =
     (let lowerUrl = toLowerCase url
      in list_ex (\<lambda>ext. str_includes lowerUrl ext) videoExtensions)"

text \<open>
  The two predicates are used as a classifier: \<open>Create.tsx\<close> keeps \<open>isVideoFile(file)\<close> as
  the flag of the chosen file, and the story viewer renders a \<open>video\<close> element when
  \<open>isVideoUrl(currentStory.image_url)\<close> holds and an \<open>img\<close> element otherwise.
\<close>

datatype media_kind = Image | Video

datatype media_input = LocalFile File | MediaUrl string

definition classify :: "media_input \<Rightarrow> media_kind" where
  "classify x =
     (case x of
        LocalFile file \<Rightarrow> (if isVideoFile file then Video else Image)
      | MediaUrl url \<Rightarrow> (if isVideoUrl url then Video else Image))"


section \<open>Story viewer (src/components/stories/StoryViewer.tsx)\<close>

subsection \<open>Data\<close>

record Story =
  story_id :: string
  story_user_id :: string
  image_url :: string
  created_at :: string

record UserWithStories =
  user_id :: string
  username :: string
  avatar_url :: "string option"
  stories :: "Story list"

record like =
  isLiked :: bool
  count :: int

text \<open>The state hooks of the component (lines 34 to 38).\<close>

record viewer =
  currentIndex :: int
  progress :: real
  isPaused :: bool
  likes :: "string \<rightharpoonup> like"
  isAnimating :: bool

definition initial :: viewer where
  "initial = \<lparr>currentIndex = 0, progress = 0, isPaused = False, likes = Map.empty,
     isAnimating = False\<rparr>"

text \<open>
  The parent (\<open>StoriesCarousel\<close>) holds \<open>selectedUserStories\<close> and mounts the viewer only
  while it is not null: \<open>Closed\<close> is the null selection, \<open>Viewing u v\<close> is the viewer
  mounted on the selection \<open>u\<close> with hook state \<open>v\<close>.
\<close>

datatype playback = Closed | Viewing UserWithStories viewer

datatype error = TypeError

text \<open>Array access \<open>xs[i]\<close>: \<open>undefined\<close> (here \<open>None\<close>) outside the array.\<close>

definition js_nth :: "'a list \<Rightarrow> int \<Rightarrow> 'a option" where
  "js_nth xs i = (if 0 \<le> i \<and> i < int (length xs) then Some (xs ! nat i) else None)"

text \<open>\<open>Array.prototype.findIndex\<close>: the first index whose element satisfies the test, or -1.\<close>

fun findIndex :: "('a \<Rightarrow> bool) \<Rightarrow> 'a list \<Rightarrow> int" where
  "findIndex P [] = - 1"
| "findIndex P (x # xs) =
     (if P x then 0 else (let i = findIndex P xs in if i < 0 then - 1 else i + 1))"

subsection \<open>Values derived on every render (lines 41 to 46)\<close>

definition currentStory :: "UserWithStories \<Rightarrow> viewer \<Rightarrow> Story option" where
  "currentStory userStories v = js_nth (stories userStories) (currentIndex v)"

definition currentUserIndex :: "UserWithStories list \<Rightarrow> UserWithStories \<Rightarrow> int" where
  "currentUserIndex allUsersStories userStories =
     findIndex (\<lambda>u. user_id u = user_id userStories) allUsersStories"

definition hasNextUser :: "UserWithStories list \<Rightarrow> UserWithStories \<Rightarrow> bool" where
  "hasNextUser allUsersStories userStories \<longleftrightarrow>
     currentUserIndex allUsersStories userStories < int (length allUsersStories) - 1"

definition hasPrevUser :: "UserWithStories list \<Rightarrow> UserWithStories \<Rightarrow> bool" where
  "hasPrevUser allUsersStories userStories \<longleftrightarrow>
     currentUserIndex allUsersStories userStories > 0"

subsection \<open>Navigation handlers (lines 121 to 144)\<close>

text \<open>
  Each handler is given as the state that its queued updates produce: \<open>onNavigateUser\<close>
  replaces the parent's selection, \<open>onClose\<close> sets it to null, \<open>setCurrentIndex\<close> and
  \<open>setProgress\<close> update the hooks. Passing \<open>undefined\<close> to \<open>onNavigateUser\<close> unmounts the
  viewer, and reading \<open>prevUser.stories\<close> of \<open>undefined\<close> throws.
\<close>

definition goToNextStory :: "UserWithStories list \<Rightarrow> UserWithStories \<Rightarrow> viewer \<Rightarrow> playback" where
  "goToNextStory allUsersStories userStories v =
     (if currentIndex v < int (length (stories userStories)) - 1 then
        Viewing userStories (v\<lparr>currentIndex := currentIndex v + 1, progress := 0\<rparr>)
      else if hasNextUser allUsersStories userStories then
        (case js_nth allUsersStories (currentUserIndex allUsersStories userStories + 1) of
           None \<Rightarrow> Closed
         | Some nextUser \<Rightarrow> Viewing nextUser (v\<lparr>currentIndex := 0, progress := 0\<rparr>))
      else Closed)"

definition goToPrevStory ::
  "UserWithStories list \<Rightarrow> UserWithStories \<Rightarrow> viewer \<Rightarrow> error + playback" where
  "goToPrevStory allUsersStories userStories v =
     (if currentIndex v > 0 then
        Inr (Viewing userStories (v\<lparr>currentIndex := currentIndex v - 1, progress := 0\<rparr>))
      else if hasPrevUser allUsersStories userStories then
        (case js_nth allUsersStories (currentUserIndex allUsersStories userStories - 1) of
           None \<Rightarrow> Inl TypeError
         | Some prevUser \<Rightarrow>
             Inr (Viewing prevUser
                    (v\<lparr>currentIndex := int (length (stories prevUser)) - 1, progress := 0\<rparr>)))
      else Inr (Viewing userStories v))"

subsection \<open>Rendering and the reset effect (lines 41, 42 and 217 to 221)\<close>

text \<open>
  After the updates of a handler the component function runs again with the new props
  and hooks. Line 42 reads \<open>currentStory.image_url\<close>, which throws when the index is
  outside the stories of the selected user. After that render the effect with dependency
  \<open>userStories.user_id\<close> runs if that id differs from the one of the previous render; it
  sets the index and the progress to 0, and the component renders once more.
\<close>

definition rerender :: "UserWithStories \<Rightarrow> playback \<Rightarrow> error + playback" where
  "rerender prevUser st =
     (case st of
        Closed \<Rightarrow> Inr Closed
      | Viewing userStories v \<Rightarrow>
          if currentStory userStories v = None then Inl TypeError
          else if user_id userStories \<noteq> user_id prevUser then
            (let v' = v\<lparr>currentIndex := 0, progress := 0\<rparr>
             in if currentStory userStories v' = None then Inl TypeError
                else Inr (Viewing userStories v'))
          else Inr (Viewing userStories v))"

text \<open>Mounting: the first render with the initial hooks; the effect then changes nothing.\<close>

definition mount :: "UserWithStories \<Rightarrow> error + playback" where
  "mount userStories =
     (if currentStory userStories initial = None then Inl TypeError
      else Inr (Viewing userStories initial))"

subsection \<open>The playback operations\<close>

text \<open>
  \<open>advance\<close> and \<open>retreat\<close> are a call of the handler (button, arrow key, timer or the
  video's \<open>ended\<close> event) followed by the renders it causes. \<open>selectUser\<close> is the click on
  a story circle of the carousel (\<open>setSelectedUserStories\<close>, \<open>StoriesCarousel.tsx\<close> line
  159): it mounts the viewer when none is shown and replaces the \<open>userStories\<close> prop of the
  mounted viewer otherwise. With no viewer mounted there is no handler and no timer, so
  the closed state stays closed.
\<close>

definition advance :: "UserWithStories list \<Rightarrow> playback \<Rightarrow> error + playback" where
  "advance allUsersStories st =
     (case st of
        Closed \<Rightarrow> Inr Closed
      | Viewing userStories v \<Rightarrow> rerender userStories (goToNextStory allUsersStories userStories v))"

definition retreat :: "UserWithStories list \<Rightarrow> playback \<Rightarrow> error + playback" where
  "retreat allUsersStories st =
     (case st of
        Closed \<Rightarrow> Inr Closed
      | Viewing userStories v \<Rightarrow>
          (case goToPrevStory allUsersStories userStories v of
             Inl e \<Rightarrow> Inl e
           | Inr st' \<Rightarrow> rerender userStories st'))"

definition selectUser :: "UserWithStories \<Rightarrow> playback \<Rightarrow> error + playback" where
  "selectUser target st =
     (case st of
        Closed \<Rightarrow> mount target
      | Viewing userStories v \<Rightarrow> rerender userStories (Viewing target v))"

fun advanceN :: "UserWithStories list \<Rightarrow> nat \<Rightarrow> error + playback \<Rightarrow> error + playback" where
  "advanceN allUsersStories 0 r = r"
| "advanceN allUsersStories (Suc n) r =
     (case r of
        Inl e \<Rightarrow> Inl e
      | Inr st \<Rightarrow> advanceN allUsersStories n (advance allUsersStories st))"

text \<open>The number of stories of all users, as the specification counts them.\<close>

definition totalStoryCount :: "UserWithStories list \<Rightarrow> nat" where
  "totalStoryCount allUsersStories = sum_list (map (\<lambda>u. length (stories u)) allUsersStories)"

subsection \<open>The auto-advance timer for images (lines 147 to 165)\<close>

text \<open>
  The progress is a JavaScript number. The values that the timer produces are computed
  exactly by doubles as well: \<open>(50 / 5000) * 100\<close> evaluates to 1, and adding 1 stays exact
  on the whole numbers up to 100.
\<close>

definition duration :: real where
  "duration = 5000"

definition interval :: real where
  "interval = 50"

definition increment :: real where
  "increment = (interval / duration) * 100"

text \<open>The effect installs the interval only when the story is no video and nothing is paused.\<close>

definition timerRunning :: "UserWithStories \<Rightarrow> viewer \<Rightarrow> bool" where
  "timerRunning userStories v =
     (case currentStory userStories v of
        None \<Rightarrow> False
      | Some story \<Rightarrow> \<not> (isVideoUrl (image_url story) \<or> isPaused v))"

text \<open>The updater passed to \<open>setProgress\<close> on every tick of the interval.\<close>

definition timerTick :: "UserWithStories list \<Rightarrow> UserWithStories \<Rightarrow> viewer \<Rightarrow> playback" where
  "timerTick allUsersStories userStories v =
     (if progress v \<ge> 100 then
        (case goToNextStory allUsersStories userStories v of
           Closed \<Rightarrow> Closed
         | Viewing u v' \<Rightarrow> Viewing u (v'\<lparr>progress := 0\<rparr>))
      else Viewing userStories (v\<lparr>progress := progress v + increment\<rparr>))"

definition tick :: "UserWithStories list \<Rightarrow> playback \<Rightarrow> error + playback" where
  "tick allUsersStories st =
     (case st of
        Closed \<Rightarrow> Inr Closed
      | Viewing userStories v \<Rightarrow>
          if timerRunning userStories v
          then rerender userStories (timerTick allUsersStories userStories v)
          else Inr (Viewing userStories v))"

fun tickN :: "UserWithStories list \<Rightarrow> nat \<Rightarrow> error + playback \<Rightarrow> error + playback" where
  "tickN allUsersStories 0 r = r"
| "tickN allUsersStories (Suc n) r =
     (case r of
        Inl e \<Rightarrow> Inl e
      | Inr st \<Rightarrow> tickN allUsersStories n (tick allUsersStories st))"

subsection \<open>Liking a story (lines 71 to 119 and 223)\<close>

text \<open>
  \<open>likes[id] || { isLiked: false, count: 0 }\<close>. The keys are story ids, which are UUIDs, so
  a lookup never finds an inherited property of the object.
\<close>

definition likeOf :: "(string \<rightharpoonup> like) \<Rightarrow> string \<Rightarrow> like" where
  "likeOf m sid = (case m sid of None \<Rightarrow> \<lparr>isLiked = False, count = 0\<rparr> | Some l \<Rightarrow> l)"

text \<open>The remote writes on \<open>story_likes\<close>, each with the user id and the story id.\<close>

datatype remote_request = DeleteLike string string | InsertLike string string

text \<open>
  \<open>handleLike\<close> runs up to its \<open>await\<close> (\<open>handleLike_start\<close>): either it is rejected with a
  toast, or it has set the optimistic state, issued one remote write and captured
  \<open>storyLike\<close>. When the response arrives it continues (\<open>handleLike_resume\<close>) on the hooks
  as they are then, with \<open>failed\<close> telling whether the response carries an error. The
  timeout that clears \<open>isAnimating\<close> after 400 ms touches no other hook and is left out.
\<close>

datatype like_step = Rejected string | Pending viewer remote_request Story like

definition handleLike_start :: "string option \<Rightarrow> Story option \<Rightarrow> viewer \<Rightarrow> like_step" where
  "handleLike_start user cs v =
     (case user of
        None \<Rightarrow> Rejected ''Please sign in to like stories''
      | Some uid \<Rightarrow>
          (case cs of
             None \<Rightarrow> Rejected ''Please sign in to like stories''
           | Some story \<Rightarrow>
               (let storyLike = likeOf (likes v) (story_id story);
                    v1 = v\<lparr>isAnimating := True\<rparr>
                in if isLiked storyLike then
                     Pending
                       (v1\<lparr>likes := (likes v1)(story_id story \<mapsto>
                                        \<lparr>isLiked = False, count = count storyLike - 1\<rparr>)\<rparr>)
                       (DeleteLike uid (story_id story)) story storyLike
                   else
                     Pending
                       (v1\<lparr>likes := (likes v1)(story_id story \<mapsto>
                                        \<lparr>isLiked = True, count = count storyLike + 1\<rparr>)\<rparr>)
                       (InsertLike uid (story_id story)) story storyLike)))"

definition handleLike_resume :: "Story \<Rightarrow> like \<Rightarrow> bool \<Rightarrow> viewer \<Rightarrow> viewer \<times> string list" where
  "handleLike_resume story storyLike failed v =
     (if isLiked storyLike then
        (if failed then
           (v\<lparr>likes := (likes v)(story_id story \<mapsto>
                          \<lparr>isLiked = True, count = count storyLike\<rparr>)\<rparr>,
            [''Failed to unlike story''])
         else (v, []))
      else
        (if failed then
           (v\<lparr>likes := (likes v)(story_id story \<mapsto>
                          \<lparr>isLiked = False, count = count storyLike\<rparr>)\<rparr>,
            [''Failed to like story''])
         else (v, [])))"

text \<open>
  One whole toggle with nothing happening between the request and its response: the
  hooks afterwards, the remote writes issued and the toasts shown.
\<close>

definition handleLike ::
  "string option \<Rightarrow> Story option \<Rightarrow> bool \<Rightarrow> viewer \<Rightarrow> viewer \<times> remote_request list \<times> string list"
  where
  "handleLike user cs failed v =
     (case handleLike_start user cs v of
        Rejected msg \<Rightarrow> (v, [], [msg])
      | Pending v1 req story storyLike \<Rightarrow>
          (case handleLike_resume story storyLike failed v1 of
             (v2, msgs) \<Rightarrow> (v2, [req], msgs)))"

subsection \<open>The cursor invariant and the reachable states\<close>

definition validCursor :: "UserWithStories \<Rightarrow> viewer \<Rightarrow> bool" where
  "validCursor userStories v \<longleftrightarrow>
     0 \<le> currentIndex v \<and> currentIndex v < int (length (stories userStories)) \<and>
     0 \<le> progress v \<and> progress v \<le> 100"

text \<open>
  The states that load, Advance, Retreat, the timer and a selection in the carousel
  produce from the closed viewer, as long as no render throws.
\<close>

inductive reachable :: "UserWithStories list \<Rightarrow> playback \<Rightarrow> bool"
  for allUsersStories :: "UserWithStories list" where
  closed: "reachable allUsersStories Closed"
| select: "reachable allUsersStories st \<Longrightarrow> k < length allUsersStories \<Longrightarrow>
     selectUser (allUsersStories ! k) st = Inr st' \<Longrightarrow> reachable allUsersStories st'"
| advance: "reachable allUsersStories st \<Longrightarrow> advance allUsersStories st = Inr st' \<Longrightarrow>
     reachable allUsersStories st'"
| retreat: "reachable allUsersStories st \<Longrightarrow> retreat allUsersStories st = Inr st' \<Longrightarrow>
     reachable allUsersStories st'"
| tick: "reachable allUsersStories st \<Longrightarrow> tick allUsersStories st = Inr st' \<Longrightarrow>
     reachable allUsersStories st'"

text \<open>
  What holds of every reachable state: the selection is an entry of the list, the cursor
  is valid, and the progress is a whole number of increments.
\<close>

definition settled :: "UserWithStories list \<Rightarrow> playback \<Rightarrow> bool" where
  "settled allUsersStories st =
     (case st of
        Closed \<Rightarrow> True
      | Viewing userStories v \<Rightarrow>
          userStories \<in> set allUsersStories \<and> validCursor userStories v \<and> progress v \<in> \<nat>)"

subsection \<open>Well-formed story lists and a sample\<close>

text \<open>
  The carousel builds \<open>usersWithStories\<close> with one entry for each profile that has a
  story of the last 24 hours (\<open>profiles.user_id\<close> is unique in the schema), so the user
  ids are pairwise different and no entry has an empty story list.
\<close>

definition wellFormed :: "UserWithStories list \<Rightarrow> bool" where
  "wellFormed allUsersStories \<longleftrightarrow>
     distinct (map user_id allUsersStories) \<and>
     list_all (\<lambda>u. stories u \<noteq> []) allUsersStories"

definition alice :: UserWithStories where
  "alice = \<lparr>user_id = ''u-alice'', username = ''alice'', avatar_url = None,
     stories =
       [\<lparr>story_id = ''a1'', story_user_id = ''u-alice'',
          image_url = ''https://cdn.example/stories/a1.jpg'', created_at = ''2025-12-07T10:00:00Z''\<rparr>,
        \<lparr>story_id = ''a2'', story_user_id = ''u-alice'',
          image_url = ''https://cdn.example/stories/a2.png'', created_at = ''2025-12-07T11:00:00Z''\<rparr>]\<rparr>"

definition bob :: UserWithStories where
  "bob = \<lparr>user_id = ''u-bob'', username = ''bob'', avatar_url = None,
     stories =
       [\<lparr>story_id = ''b1'', story_user_id = ''u-bob'',
          image_url = ''https://cdn.example/stories/b1.jpg'', created_at = ''2025-12-07T12:00:00Z''\<rparr>]\<rparr>"

definition sample :: "UserWithStories list" where
  "sample = [alice, bob]"

text \<open>
  An AVIF picture as the browser hands it over, and the public URL of its upload: the story
  creator stores a file under the user's folder as \<open>Date.now()\<close> followed by the extension of
  the file name.
\<close>

definition avifFile :: File where
  "avifFile = \<lparr>file_name = ''sunset.avif'', file_type = ''image/avif'', file_size = 204800\<rparr>"

definition avifUrl :: string where
  "avifUrl = ''https://cdn.example/storage/v1/object/public/stories/u-alice/stories/1733570000000.avif''"


section \<open>Media classification\<close>

lemma startsWith_prefix: "startsWith s p \<longleftrightarrow> prefix p s"
  by (induction s p rule: startsWith.induct) auto

lemma str_includes_sublist: "str_includes s t \<longleftrightarrow> sublist t s"
  by (induction s) (auto simp: startsWith_prefix sublist_Cons_right)

lemma isVideoUrl_iff:
  "isVideoUrl url \<longleftrightarrow>
     (\<exists>ext \<in> {''.mp4'', ''.webm'', ''.mov'', ''.avi'', ''.mkv'', ''.m4v''}.
        \<exists>pre post. toLowerCase url = pre @ ext @ post)"
  by (simp add: isVideoUrl_def Let_def videoExtensions_def str_includes_sublist sublist_def)

text \<open>
  What the two predicates compute: the prefix test on the MIME type, and for a URL the
  occurrence of one of the six strings anywhere in the lower-cased URL.
\<close>

lemma classify_by_containment:
  "classify (LocalFile file) = (if prefix ''video/'' (file_type file) then Video else Image)
   \<and> classify (MediaUrl url) =
       (if (\<exists>ext \<in> {''.mp4'', ''.webm'', ''.mov'', ''.avi'', ''.mkv'', ''.m4v''}.
              \<exists>pre post. toLowerCase url = pre @ ext @ post)
        then Video else Image)"
  by (simp add: classify_def isVideoFile_def startsWith_prefix isVideoUrl_iff)

text \<open>
  Claim C6. A URL is to be a video exactly when it matches one of the known video file
  name extensions, and everything else an image. \<open>isVideoUrl\<close> tests with \<open>includes\<close>, so a
  longer extension that begins with a listed one matches too. The AVIF picture passes
  \<open>validateMediaFile\<close> and is an image by its MIME type, but the URL of its upload is
  classified as a video: it contains \<open>.avi\<close>, although it ends with none of the six
  extensions.
\<close>

theorem avif_image_url_classified_as_video:
  "validateMediaFile avifFile = (True, None)
   \<and> classify (LocalFile avifFile) = Image
   \<and> classify (MediaUrl avifUrl) = Video
   \<and> \<not> list_ex (\<lambda>ext. suffix ext (toLowerCase avifUrl)) videoExtensions
   \<and> str_includes (toLowerCase avifUrl) ''.avi''"
proof -
  have a: "validateMediaFile avifFile = (True, None)"
    by (simp add: validateMediaFile_def isValidMediaFile_def isImageFile_def isVideoFile_def
        MAX_IMAGE_SIZE_def avifFile_def)
  have b: "classify (LocalFile avifFile) = Image"
    by (simp add: classify_def isVideoFile_def avifFile_def)
  have low: "toLowerCase avifUrl = avifUrl"
    by (simp add: toLowerCase_def toLowerChar_def avifUrl_def)
  have d: "str_includes avifUrl ''.avi''"
    by (simp add: avifUrl_def)
  have c: "classify (MediaUrl avifUrl) = Video"
    using d by (simp add: classify_def isVideoUrl_def Let_def low videoExtensions_def)
  have e: "\<not> list_ex (\<lambda>ext. suffix ext avifUrl) videoExtensions"
    by (simp add: videoExtensions_def avifUrl_def suffix_to_prefix)
  from a b c d e low show ?thesis by simp
qed


section \<open>Navigation\<close>

lemma findIndex_bounds: "- 1 \<le> findIndex P xs \<and> findIndex P xs < int (length xs)"
  by (induction xs) (auto simp: Let_def)

lemma findIndex_distinct:
  "distinct (map f xs) \<Longrightarrow> u < length xs \<Longrightarrow> findIndex (\<lambda>x. f x = f (xs ! u)) xs = int u"
proof (induction xs arbitrary: u)
  case Nil
  then show ?case by simp
next
  case (Cons x xs)
  show ?case
  proof (cases u)
    case 0
    then show ?thesis by simp
  next
    case (Suc k)
    with Cons.prems have k: "k < length xs" and d: "distinct (map f xs)" and nx: "f x \<notin> f ` set xs"
      by auto
    from k nx have "f x \<noteq> f (xs ! k)" by (metis imageI nth_mem)
    moreover from Cons.IH [OF d k] have "findIndex (\<lambda>y. f y = f (xs ! k)) xs = int k" .
    ultimately show ?thesis using Suc by (simp add: Let_def)
  qed
qed

lemma currentUserIndex_at:
  "wellFormed S \<Longrightarrow> u < length S \<Longrightarrow> currentUserIndex S (S ! u) = int u"
  unfolding currentUserIndex_def wellFormed_def
  using findIndex_distinct [of user_id S u] by simp

lemma wellFormed_stories: "wellFormed S \<Longrightarrow> u < length S \<Longrightarrow> stories (S ! u) \<noteq> []"
  by (simp add: wellFormed_def list_all_length)

lemma wellFormed_user_id:
  "wellFormed S \<Longrightarrow> u < length S \<Longrightarrow> w < length S \<Longrightarrow> user_id (S ! u) = user_id (S ! w) \<longleftrightarrow> u = w"
  by (auto simp: wellFormed_def distinct_conv_nth)

lemma goToNextStory_at:
  assumes "wellFormed S" "u < length S"
  shows "goToNextStory S (S ! u) v =
     (if currentIndex v < int (length (stories (S ! u))) - 1 then
        Viewing (S ! u) (v\<lparr>currentIndex := currentIndex v + 1, progress := 0\<rparr>)
      else if Suc u < length S then
        Viewing (S ! Suc u) (v\<lparr>currentIndex := 0, progress := 0\<rparr>)
      else Closed)"
  using assms
  by (auto simp: goToNextStory_def hasNextUser_def currentUserIndex_at js_nth_def nat_add_distrib)

lemma advance_at:
  assumes "wellFormed S" "u < length S" "0 \<le> currentIndex v"
    "currentIndex v < int (length (stories (S ! u)))"
  shows "advance S (Viewing (S ! u) v) =
     Inr (if currentIndex v + 1 < int (length (stories (S ! u))) then
            Viewing (S ! u) (v\<lparr>currentIndex := currentIndex v + 1, progress := 0\<rparr>)
          else if Suc u < length S then
            Viewing (S ! Suc u) (v\<lparr>currentIndex := 0, progress := 0\<rparr>)
          else Closed)"
proof -
  have ne: "Suc u < length S \<Longrightarrow> stories (S ! Suc u) \<noteq> []"
    using assms(1) by (rule wellFormed_stories)
  have id: "Suc u < length S \<Longrightarrow> user_id (S ! Suc u) \<noteq> user_id (S ! u)"
    using wellFormed_user_id [OF assms(1), of "Suc u" u] assms(2) by simp
  show ?thesis
    using assms ne id
    by (auto simp: advance_def goToNextStory_at rerender_def currentStory_def js_nth_def)
qed

lemma goToPrevStory_at:
  assumes "wellFormed S" "u < length S"
  shows "goToPrevStory S (S ! u) v =
     Inr (if currentIndex v > 0 then
            Viewing (S ! u) (v\<lparr>currentIndex := currentIndex v - 1, progress := 0\<rparr>)
          else if 0 < u then
            Viewing (S ! (u - 1))
              (v\<lparr>currentIndex := int (length (stories (S ! (u - 1)))) - 1, progress := 0\<rparr>)
          else Viewing (S ! u) v)"
  using assms
  by (auto simp: goToPrevStory_def hasPrevUser_def currentUserIndex_at js_nth_def nat_diff_distrib)

text \<open>The index of the previous user is always inside the list, so the handler never throws.\<close>

lemma goToPrevStory_total: "\<exists>st. goToPrevStory S us v = Inr st"
  using findIndex_bounds [of "\<lambda>u. user_id u = user_id us" S]
  by (auto simp: goToPrevStory_def hasPrevUser_def currentUserIndex_def js_nth_def)

text \<open>
  What Retreat does on a well-formed list. After a move to the previous user the index is
  0: the handler sets the last index, and the reset effect replaces it.
\<close>

lemma retreat_at:
  assumes "wellFormed S" "u < length S" "0 \<le> currentIndex v"
    "currentIndex v < int (length (stories (S ! u)))"
  shows "retreat S (Viewing (S ! u) v) =
     Inr (if currentIndex v > 0 then
            Viewing (S ! u) (v\<lparr>currentIndex := currentIndex v - 1, progress := 0\<rparr>)
          else if 0 < u then
            Viewing (S ! (u - 1)) (v\<lparr>currentIndex := 0, progress := 0\<rparr>)
          else Viewing (S ! u) v)"
proof -
  have ne: "0 < u \<Longrightarrow> stories (S ! (u - 1)) \<noteq> []"
    using assms(1,2) by (simp add: wellFormed_stories)
  have id: "0 < u \<Longrightarrow> user_id (S ! (u - 1)) \<noteq> user_id (S ! u)"
    using wellFormed_user_id [OF assms(1), of "u - 1" u] assms(2) by simp
  show ?thesis
    using assms ne id
    by (auto simp: retreat_def goToPrevStory_at rerender_def currentStory_def js_nth_def)
qed

lemma wellFormed_sample: "wellFormed sample"
  by (simp add: wellFormed_def sample_def alice_def bob_def)

text \<open>
  Claim C1. On a well-formed list \<open>S\<close>, Advance at the position \<open>(u, s)\<close>, that is the viewer
  on \<open>S ! u\<close> with index \<open>s\<close>, leads to \<open>(u, s + 1)\<close> with progress 0 when \<open>s + 1\<close> is
  less than the number of stories of user \<open>u\<close>; otherwise to \<open>(u + 1, 0)\<close> with progress 0
  when there is a next user; otherwise to \<open>Closed\<close>.
\<close>

theorem advance_transition:
  assumes "wellFormed S" and "u < length S" and "s < length (stories (S ! u))"
    and "currentIndex v = int s"
  shows "advance S (Viewing (S ! u) v) =
     Inr (if s + 1 < length (stories (S ! u)) then
            Viewing (S ! u) (v\<lparr>currentIndex := int (s + 1), progress := 0\<rparr>)
          else if u + 1 < length S then
            Viewing (S ! (u + 1)) (v\<lparr>currentIndex := 0, progress := 0\<rparr>)
          else Closed)"
  using assms advance_at [of S u v] by (simp add: add.commute)

theorem advance_transition_witness:
  "wellFormed sample
   \<and> advance sample (Viewing alice (initial\<lparr>progress := 40\<rparr>))
       = Inr (Viewing alice (initial\<lparr>currentIndex := 1\<rparr>))
   \<and> advance sample (Viewing alice (initial\<lparr>currentIndex := 1, progress := 40\<rparr>))
       = Inr (Viewing bob initial)
   \<and> advance sample (Viewing bob (initial\<lparr>progress := 40\<rparr>)) = Inr Closed"
proof -
  have wf: "wellFormed sample" by (rule wellFormed_sample)
  have a: "advance sample (Viewing alice (initial\<lparr>progress := 40\<rparr>))
       = Inr (Viewing alice (initial\<lparr>currentIndex := 1\<rparr>))"
    using advance_transition [OF wf, of 0 0 "initial\<lparr>progress := 40\<rparr>"]
    by (simp add: sample_def alice_def initial_def)
  have b: "advance sample (Viewing alice (initial\<lparr>currentIndex := 1, progress := 40\<rparr>))
       = Inr (Viewing bob initial)"
    using advance_transition [OF wf, of 0 1 "initial\<lparr>currentIndex := 1, progress := 40\<rparr>"]
    by (simp add: sample_def alice_def initial_def)
  have c: "advance sample (Viewing bob (initial\<lparr>progress := 40\<rparr>)) = Inr Closed"
    using advance_transition [OF wf, of 1 0 "initial\<lparr>progress := 40\<rparr>"]
    by (simp add: sample_def bob_def initial_def)
  from wf a b c show ?thesis by simp
qed

text \<open>
  Claim C2. Retreat at the first story of a user who has a predecessor is claimed to land on
  the last story of the previous user. The handler does set that index, but the selection
  changes with it, so the reset effect of lines 217 to 221 runs after the render and puts
  the index back to 0 (lemma \<open>retreat_at\<close> gives the general form). On the sample, Retreat
  at bob's only story lands on alice's first story, not on her second and last one.
\<close>

theorem retreat_to_previous_user_lands_on_first_story:
  "goToPrevStory sample bob initial = Inr (Viewing alice (initial\<lparr>currentIndex := 1\<rparr>))
   \<and> retreat sample (Viewing bob initial) = Inr (Viewing alice initial)"
  by (simp add: retreat_def goToPrevStory_def rerender_def hasPrevUser_def currentUserIndex_def
      currentStory_def js_nth_def sample_def alice_def bob_def initial_def)

lemma sum_drop_Suc:
  "u < length S \<Longrightarrow>
     sum_list (map f (drop u S)) = f (S ! u) + sum_list (map f (drop (Suc u) S))"
  by (simp add: Cons_nth_drop_Suc [symmetric])

lemma wellFormed_rest_pos:
  assumes "wellFormed S" "w < length S"
  shows "0 < sum_list (map (\<lambda>u. length (stories u)) (drop w S))"
  using assms wellFormed_stories [OF assms] by (simp add: sum_drop_Suc)

lemma advanceN_closes:
  assumes "wellFormed S"
  shows "u < length S \<Longrightarrow> s < length (stories (S ! u)) \<Longrightarrow> currentIndex v = int s \<Longrightarrow>
     sum_list (map (\<lambda>u. length (stories u)) (drop u S)) - s = Suc n \<Longrightarrow>
     advanceN S (Suc n) (Inr (Viewing (S ! u) v)) = Inr Closed
     \<and> (\<forall>k\<le>n. \<exists>w v'. advanceN S k (Inr (Viewing (S ! u) v)) = Inr (Viewing w v'))"
proof (induction n arbitrary: u s v)
  case 0
  have adv: "advance S (Viewing (S ! u) v) =
     Inr (if currentIndex v + 1 < int (length (stories (S ! u))) then
            Viewing (S ! u) (v\<lparr>currentIndex := currentIndex v + 1, progress := 0\<rparr>)
          else if Suc u < length S then
            Viewing (S ! Suc u) (v\<lparr>currentIndex := 0, progress := 0\<rparr>)
          else Closed)"
    using assms 0 by (intro advance_at) simp_all
  have split: "sum_list (map (\<lambda>u. length (stories u)) (drop u S)) =
      length (stories (S ! u)) + sum_list (map (\<lambda>u. length (stories u)) (drop (Suc u) S))"
    using 0 by (simp add: sum_drop_Suc)
  have last: "Suc s = length (stories (S ! u))" and none: "\<not> Suc u < length S"
    using 0 split wellFormed_rest_pos [OF assms, of "Suc u"] by auto
  show ?case using adv last none 0 by simp
next
  case (Suc n)
  have adv: "advance S (Viewing (S ! u) v) =
     Inr (if currentIndex v + 1 < int (length (stories (S ! u))) then
            Viewing (S ! u) (v\<lparr>currentIndex := currentIndex v + 1, progress := 0\<rparr>)
          else if Suc u < length S then
            Viewing (S ! Suc u) (v\<lparr>currentIndex := 0, progress := 0\<rparr>)
          else Closed)"
    using assms Suc.prems by (intro advance_at) simp_all
  have split: "sum_list (map (\<lambda>u. length (stories u)) (drop u S)) =
      length (stories (S ! u)) + sum_list (map (\<lambda>u. length (stories u)) (drop (Suc u) S))"
    using Suc.prems by (simp add: sum_drop_Suc)
  show ?case
  proof (cases "Suc s < length (stories (S ! u))")
    case True
    let ?v = "v\<lparr>currentIndex := currentIndex v + 1, progress := 0\<rparr>"
    have step: "advance S (Viewing (S ! u) v) = Inr (Viewing (S ! u) ?v)"
      using adv True Suc.prems by simp
    have ih: "advanceN S (Suc n) (Inr (Viewing (S ! u) ?v)) = Inr Closed
       \<and> (\<forall>k\<le>n. \<exists>w v'. advanceN S k (Inr (Viewing (S ! u) ?v)) = Inr (Viewing w v'))"
      using Suc.prems True by (intro Suc.IH [of u "Suc s"]) simp_all
    show ?thesis
    proof (intro conjI allI impI)
      show "advanceN S (Suc (Suc n)) (Inr (Viewing (S ! u) v)) = Inr Closed"
        using step ih by simp
    next
      fix k assume "k \<le> Suc n"
      show "\<exists>w v'. advanceN S k (Inr (Viewing (S ! u) v)) = Inr (Viewing w v')"
      proof (cases k)
        case 0
        then show ?thesis by simp
      next
        case (Suc j)
        with \<open>k \<le> Suc n\<close> have "j \<le> n" by simp
        with ih step Suc show ?thesis by simp
      qed
    qed
  next
    case False
    with Suc.prems have last: "Suc s = length (stories (S ! u))" by simp
    have more: "Suc u < length S"
    proof (rule ccontr)
      assume "\<not> Suc u < length S"
      then have "drop (Suc u) S = []" by simp
      with split last Suc.prems show False by simp
    qed
    let ?v = "v\<lparr>currentIndex := 0, progress := 0\<rparr>"
    have step: "advance S (Viewing (S ! u) v) = Inr (Viewing (S ! Suc u) ?v)"
      using adv last more Suc.prems by simp
    have pos: "0 < length (stories (S ! Suc u))"
      using wellFormed_stories [OF assms more] by simp
    have ih: "advanceN S (Suc n) (Inr (Viewing (S ! Suc u) ?v)) = Inr Closed
       \<and> (\<forall>k\<le>n. \<exists>w v'. advanceN S k (Inr (Viewing (S ! Suc u) ?v)) = Inr (Viewing w v'))"
      using Suc.prems more pos split last by (intro Suc.IH [of "Suc u" 0]) simp_all
    show ?thesis
    proof (intro conjI allI impI)
      show "advanceN S (Suc (Suc n)) (Inr (Viewing (S ! u) v)) = Inr Closed"
        using step ih by simp
    next
      fix k assume "k \<le> Suc n"
      show "\<exists>w v'. advanceN S k (Inr (Viewing (S ! u) v)) = Inr (Viewing w v')"
      proof (cases k)
        case 0
        then show ?thesis by simp
      next
        case (Suc j)
        with \<open>k \<le> Suc n\<close> have "j \<le> n" by simp
        with ih step Suc show ?thesis by simp
      qed
    qed
  qed
qed

text \<open>
  Claim C7. On a non-empty well-formed list \<open>S\<close>, opening the viewer on the first user and
  applying Advance \<open>totalStoryCount S\<close> times reaches \<open>Closed\<close>, and no smaller number of
  Advance steps does.
\<close>

theorem advance_terminates:
  assumes "wellFormed S" and "S \<noteq> []"
  shows "advanceN S (totalStoryCount S) (selectUser (S ! 0) Closed) = Inr Closed
     \<and> (\<forall>k < totalStoryCount S. advanceN S k (selectUser (S ! 0) Closed) \<noteq> Inr Closed)"
proof -
  from assms(2) have u: "0 < length S" by simp
  have ne: "0 < length (stories (S ! 0))"
    using wellFormed_stories [OF assms(1) u] by simp
  have start: "selectUser (S ! 0) Closed = Inr (Viewing (S ! 0) initial)"
    using ne by (simp add: selectUser_def mount_def currentStory_def js_nth_def initial_def)
  have "0 < totalStoryCount S"
    using wellFormed_rest_pos [OF assms(1) u] by (simp add: totalStoryCount_def)
  then obtain n where n: "totalStoryCount S = Suc n" by (cases "totalStoryCount S") auto
  have "advanceN S (Suc n) (Inr (Viewing (S ! 0) initial)) = Inr Closed
     \<and> (\<forall>k\<le>n. \<exists>w v'. advanceN S k (Inr (Viewing (S ! 0) initial)) = Inr (Viewing w v'))"
    using u ne n by (intro advanceN_closes [OF assms(1), of 0 0]) (simp_all add: initial_def totalStoryCount_def)
  then show ?thesis using start n by (auto simp: less_Suc_eq_le)
qed

theorem advance_terminates_witness:
  "wellFormed sample \<and> sample \<noteq> [] \<and> totalStoryCount sample = 3
   \<and> advanceN sample 3 (selectUser alice Closed) = Inr Closed
   \<and> advanceN sample 2 (selectUser alice Closed) \<noteq> Inr Closed"
proof -
  have wf: "wellFormed sample" by (rule wellFormed_sample)
  have ne: "sample \<noteq> []" by (simp add: sample_def)
  have t: "totalStoryCount sample = 3"
    by (simp add: totalStoryCount_def sample_def alice_def bob_def)
  have h: "sample ! 0 = alice" by (simp add: sample_def)
  from advance_terminates [OF wf ne] wf ne t h show ?thesis by simp
qed


section \<open>The image timer\<close>

lemma currentStory_progress [simp]: "currentStory us (v\<lparr>progress := p\<rparr>) = currentStory us v"
  by (simp add: currentStory_def)

lemma timerRunning_progress [simp]: "timerRunning us (v\<lparr>progress := p\<rparr>) = timerRunning us v"
  by (simp add: timerRunning_def split: option.split)

lemma timerRunning_currentStory: "timerRunning us v \<Longrightarrow> currentStory us v \<noteq> None"
  by (auto simp: timerRunning_def split: option.splits)

lemma increment_one: "increment = 1"
  by (simp add: increment_def interval_def duration_def)

lemma tick_increment:
  "timerRunning us v \<Longrightarrow> progress v < 100 \<Longrightarrow>
     tick S (Viewing us v) = Inr (Viewing us (v\<lparr>progress := progress v + increment\<rparr>))"
  by (auto simp: tick_def timerTick_def rerender_def dest: timerRunning_currentStory)

lemma timerTick_advance:
  "progress v \<ge> 100 \<Longrightarrow> timerTick S us v = goToNextStory S us v"
  by (simp add: timerTick_def goToNextStory_def split: option.split)

lemma tick_advance:
  "timerRunning us v \<Longrightarrow> progress v \<ge> 100 \<Longrightarrow> tick S (Viewing us v) = advance S (Viewing us v)"
  by (simp add: tick_def advance_def timerTick_advance)

lemma advance_progress:
  "advance S (Viewing us v) = Inr (Viewing w v') \<Longrightarrow> progress v' = 0"
  by (auto simp: advance_def goToNextStory_def rerender_def Let_def
      split: if_splits option.splits)

lemma tickN_add: "tickN S (m + n) r = tickN S n (tickN S m r)"
proof (induction m arbitrary: r)
  case 0
  then show ?case by simp
next
  case (Suc m)
  show ?case
  proof (cases r)
    case (Inl e)
    then show ?thesis by (induction n) simp_all
  next
    case (Inr st)
    then show ?thesis using Suc by simp
  qed
qed

lemma tickN_progress:
  "timerRunning us v \<Longrightarrow> progress v = real k \<Longrightarrow> k + n \<le> 100 \<Longrightarrow>
     tickN S n (Inr (Viewing us v)) = Inr (Viewing us (v\<lparr>progress := real (k + n)\<rparr>))"
proof (induction n arbitrary: v k)
  case 0
  then have "v\<lparr>progress := real k\<rparr> = v" by simp
  then show ?case by simp
next
  case (Suc n)
  from Suc.prems have "progress v < 100" by simp
  with Suc.prems have step:
    "tick S (Viewing us v) = Inr (Viewing us (v\<lparr>progress := real (Suc k)\<rparr>))"
    by (simp add: tick_increment increment_one add.commute)
  have "tickN S n (Inr (Viewing us (v\<lparr>progress := real (Suc k)\<rparr>)))
      = Inr (Viewing us (v\<lparr>progress := real (Suc k), progress := real (Suc k + n)\<rparr>))"
    using Suc.prems by (intro Suc.IH) simp_all
  with step show ?case by simp
qed

text \<open>
  Claim C5. While an image is shown and nothing is paused, every tick of the 50 ms interval
  adds the fixed increment 1 to the progress: starting from 0 the progress is \<open>n\<close> after
  \<open>n\<close> ticks, and 100 after 100 ticks, which is 5000 ms. The tick that finds the progress
  at 100 performs the Advance transition, and the progress is 0 afterwards.
\<close>

theorem image_timer:
  assumes "currentStory us v = Some story" and "\<not> isVideoUrl (image_url story)"
    and "\<not> isPaused v" and "progress v = 0"
  shows "increment = 1 \<and> 100 * interval = duration
     \<and> (\<forall>n\<le>100. tickN S n (Inr (Viewing us v)) = Inr (Viewing us (v\<lparr>progress := real n * increment\<rparr>)))
     \<and> tickN S 100 (Inr (Viewing us v)) = Inr (Viewing us (v\<lparr>progress := 100\<rparr>))
     \<and> tickN S 101 (Inr (Viewing us v)) = advance S (Viewing us (v\<lparr>progress := 100\<rparr>))
     \<and> (\<forall>w v'. tickN S 101 (Inr (Viewing us v)) = Inr (Viewing w v') \<longrightarrow> progress v' = 0)"
proof -
  have run: "timerRunning us v"
    using assms by (simp add: timerRunning_def)
  have upto: "tickN S n (Inr (Viewing us v)) = Inr (Viewing us (v\<lparr>progress := real n\<rparr>))"
    if "n \<le> 100" for n
    using tickN_progress [OF run, of 0 n S] assms(4) that by simp
  have full: "tickN S 100 (Inr (Viewing us v)) = Inr (Viewing us (v\<lparr>progress := 100\<rparr>))"
    using upto [of 100] by simp
  have "tickN S (100 + 1) (Inr (Viewing us v)) = tickN S 1 (tickN S 100 (Inr (Viewing us v)))"
    by (rule tickN_add)
  also have "\<dots> = tick S (Viewing us (v\<lparr>progress := 100\<rparr>))"
    by (simp add: full)
  also have "\<dots> = advance S (Viewing us (v\<lparr>progress := 100\<rparr>))"
    using run by (simp add: tick_advance)
  finally have next_tick:
    "tickN S 101 (Inr (Viewing us v)) = advance S (Viewing us (v\<lparr>progress := 100\<rparr>))"
    by simp
  show ?thesis
    using upto full next_tick advance_progress
    by (auto simp: increment_one interval_def duration_def)
qed

theorem image_timer_witness:
  "currentStory alice initial = Some (stories alice ! 0)
   \<and> \<not> isVideoUrl (image_url (stories alice ! 0))
   \<and> tickN sample 100 (Inr (Viewing alice initial)) = Inr (Viewing alice (initial\<lparr>progress := 100\<rparr>))
   \<and> tickN sample 101 (Inr (Viewing alice initial)) = Inr (Viewing alice (initial\<lparr>currentIndex := 1\<rparr>))"
proof -
  have cs: "currentStory alice initial = Some (stories alice ! 0)"
    by (simp add: currentStory_def js_nth_def alice_def initial_def)
  have img: "\<not> isVideoUrl (image_url (stories alice ! 0))"
    by (simp add: alice_def isVideoUrl_def videoExtensions_def toLowerCase_def toLowerChar_def)
  have np: "\<not> isPaused initial" and p0: "progress initial = 0"
    by (simp_all add: initial_def)
  have adv: "advance sample (Viewing alice (initial\<lparr>progress := 100\<rparr>))
      = Inr (Viewing alice (initial\<lparr>currentIndex := 1\<rparr>))"
    by (simp add: advance_def goToNextStory_def rerender_def currentStory_def js_nth_def
        alice_def initial_def)
  from image_timer [OF cs img np p0, of sample] cs img adv show ?thesis by simp
qed


section \<open>The cursor invariant\<close>

lemma rerender_settled:
  assumes "rerender prevUser (Viewing w v) = Inr st'" and "w \<in> set S"
    and "0 \<le> progress v" and "progress v \<le> 100" and "progress v \<in> \<nat>"
  shows "settled S st'"
  using assms
  by (auto simp: rerender_def settled_def validCursor_def currentStory_def js_nth_def Let_def
      split: if_splits)

lemma js_nth_in_set: "js_nth xs i = Some x \<Longrightarrow> x \<in> set xs"
  by (auto simp: js_nth_def split: if_splits)

lemma goToNextStory_cases:
  "goToNextStory S us v = Closed
   \<or> (\<exists>w v'. goToNextStory S us v = Viewing w v' \<and> (w = us \<or> w \<in> set S) \<and> progress v' = 0)"
  by (auto simp: goToNextStory_def split: option.splits dest: js_nth_in_set)

lemma advance_settled:
  assumes "settled S st" and "advance S st = Inr st'"
  shows "settled S st'"
proof (cases st)
  case Closed
  with assms show ?thesis by (simp add: advance_def)
next
  case (Viewing us v)
  with assms(1) have us: "us \<in> set S" by (simp add: settled_def)
  from goToNextStory_cases [of S us v] show ?thesis
  proof
    assume "goToNextStory S us v = Closed"
    with assms(2) Viewing show ?thesis by (simp add: advance_def rerender_def settled_def)
  next
    assume "\<exists>w v'. goToNextStory S us v = Viewing w v' \<and> (w = us \<or> w \<in> set S) \<and> progress v' = 0"
    then obtain w v' where g: "goToNextStory S us v = Viewing w v'" and w: "w = us \<or> w \<in> set S"
      and p: "progress v' = 0" by blast
    from w us have "w \<in> set S" by auto
    moreover from assms(2) Viewing g have "rerender us (Viewing w v') = Inr st'"
      by (simp add: advance_def)
    ultimately show ?thesis using p by (intro rerender_settled [of us w v' st' S]) simp_all
  qed
qed

lemma goToPrevStory_cases:
  assumes "goToPrevStory S us v = Inr st1"
  shows "st1 = Viewing us v
   \<or> (\<exists>w v'. st1 = Viewing w v' \<and> (w = us \<or> w \<in> set S) \<and> progress v' = 0)"
  using assms
  by (auto simp: goToPrevStory_def split: option.splits if_splits dest: js_nth_in_set)

lemma retreat_settled:
  assumes "settled S st" and "retreat S st = Inr st'"
  shows "settled S st'"
proof (cases st)
  case Closed
  with assms show ?thesis by (simp add: retreat_def)
next
  case (Viewing us v)
  with assms(1) have us: "us \<in> set S" and vc: "validCursor us v" and pn: "progress v \<in> \<nat>"
    by (simp_all add: settled_def)
  from assms(2) Viewing obtain st1 where g: "goToPrevStory S us v = Inr st1"
    and r: "rerender us st1 = Inr st'"
    by (auto simp: retreat_def split: sum.splits)
  from goToPrevStory_cases [OF g] show ?thesis
  proof
    assume "st1 = Viewing us v"
    with r us vc pn show ?thesis
      by (intro rerender_settled [of us us v st' S]) (simp_all add: validCursor_def)
  next
    assume "\<exists>w v'. st1 = Viewing w v' \<and> (w = us \<or> w \<in> set S) \<and> progress v' = 0"
    then obtain w v' where s: "st1 = Viewing w v'" and w: "w = us \<or> w \<in> set S"
      and p: "progress v' = 0" by blast
    from w us have "w \<in> set S" by auto
    with r s p show ?thesis by (intro rerender_settled [of us w v' st' S]) simp_all
  qed
qed

lemma nat_progress_step:
  assumes "(p::real) \<in> \<nat>" and "p < 100"
  shows "p + 1 \<le> 100 \<and> p + 1 \<in> \<nat> \<and> 0 \<le> p + 1"
proof -
  from assms(1) obtain n :: nat where n: "p = real n" by (auto simp: Nats_def)
  with assms(2) have "n < 100" by simp
  then have "real (Suc n) \<le> 100" by simp
  with n show ?thesis by (simp add: add.commute)
qed

lemma tick_settled:
  assumes "settled S st" and "tick S st = Inr st'"
  shows "settled S st'"
proof (cases st)
  case Closed
  with assms show ?thesis by (simp add: tick_def)
next
  case (Viewing us v)
  with assms(1) have us: "us \<in> set S" and vc: "validCursor us v" and pn: "progress v \<in> \<nat>"
    by (simp_all add: settled_def)
  show ?thesis
  proof (cases "timerRunning us v")
    case False
    with assms Viewing show ?thesis by (simp add: tick_def)
  next
    case True
    show ?thesis
    proof (cases "progress v < 100")
      case lt: True
      from nat_progress_step [OF pn lt] vc assms(2) Viewing True lt us show ?thesis
        by (auto simp: tick_increment increment_one settled_def validCursor_def)
    next
      case False
      with True assms(2) Viewing have "advance S st = Inr st'"
        by (simp add: tick_advance)
      with assms(1) show ?thesis by (rule advance_settled)
    qed
  qed
qed

lemma selectUser_settled:
  assumes "settled S st" and "k < length S" and "selectUser (S ! k) st = Inr st'"
  shows "settled S st'"
proof (cases st)
  case Closed
  with assms show ?thesis
    by (auto simp: selectUser_def mount_def settled_def validCursor_def currentStory_def
        js_nth_def initial_def split: if_splits)
next
  case (Viewing us v)
  with assms(1) have vc: "validCursor us v" and pn: "progress v \<in> \<nat>"
    by (simp_all add: settled_def)
  from assms(3) Viewing have "rerender us (Viewing (S ! k) v) = Inr st'"
    by (simp add: selectUser_def)
  with assms(2) vc pn show ?thesis
    by (intro rerender_settled [of us "S ! k" v st' S]) (simp_all add: validCursor_def)
qed

lemma reachable_settled: "reachable S st \<Longrightarrow> settled S st"
proof (induction rule: reachable.induct)
  case closed
  show ?case by (simp add: settled_def)
next
  case (select st k st')
  then show ?case by (intro selectUser_settled [of S st k st'])
next
  case (advance st st')
  then show ?case by (intro advance_settled [of S st st'])
next
  case (retreat st st')
  then show ?case by (intro retreat_settled [of S st st'])
next
  case (tick st st')
  then show ?case by (intro tick_settled [of S st st'])
qed

text \<open>On a well-formed list only a selection in the carousel can make a render throw.\<close>

lemma navigation_never_throws:
  assumes "wellFormed S" and "settled S st"
  shows "(\<exists>st'. advance S st = Inr st') \<and> (\<exists>st'. retreat S st = Inr st')
     \<and> (\<exists>st'. tick S st = Inr st')"
proof (cases st)
  case Closed
  then show ?thesis by (simp add: advance_def retreat_def tick_def)
next
  case (Viewing us v)
  with assms(2) have us: "us \<in> set S" and vc: "validCursor us v"
    by (simp_all add: settled_def)
  from us obtain u where u: "u < length S" and eq: "us = S ! u"
    by (auto simp: in_set_conv_nth)
  from vc eq have i0: "0 \<le> currentIndex v" and i1: "currentIndex v < int (length (stories (S ! u)))"
    by (simp_all add: validCursor_def)
  have a: "\<exists>st'. advance S (Viewing (S ! u) w) = Inr st'"
    if "currentIndex w = currentIndex v" for w
    using advance_at [OF assms(1) u, of w] i0 i1 that by simp
  have r: "\<exists>st'. retreat S (Viewing (S ! u) v) = Inr st'"
    using retreat_at [OF assms(1) u i0 i1] by simp
  have t: "\<exists>st'. tick S (Viewing (S ! u) v) = Inr st'"
  proof (cases "timerRunning (S ! u) v")
    case False
    then show ?thesis by (simp add: tick_def)
  next
    case True
    then show ?thesis using a [of v] by (cases "progress v < 100") (simp_all add: tick_increment tick_advance)
  qed
  from a [of v] r t Viewing eq show ?thesis by simp
qed

lemma open_never_throws:
  "wellFormed S \<Longrightarrow> k < length S \<Longrightarrow> selectUser (S ! k) Closed = Inr (Viewing (S ! k) initial)"
  using wellFormed_stories [of S k]
  by (simp add: selectUser_def mount_def currentStory_def js_nth_def initial_def)

text \<open>
  Claim C9. Every state that the operations produce has a valid cursor (lemma
  \<open>reachable_settled\<close>), and on a well-formed list Advance, Retreat and the timer never make
  a render throw (lemma \<open>navigation_never_throws\<close>). A selection in the carousel while the
  viewer is mounted does not keep the invariant: the viewer renders the newly selected user
  with the index it had, before the reset effect runs. On the sample, open alice, advance
  to her second story and select bob, who has one story: the index 1 is no index into bob's
  stories, and line 42 throws.
\<close>

theorem selection_with_stale_index_throws:
  "selectUser alice Closed = Inr (Viewing alice initial)
   \<and> advance sample (Viewing alice initial) = Inr (Viewing alice (initial\<lparr>currentIndex := 1\<rparr>))
   \<and> validCursor alice (initial\<lparr>currentIndex := 1\<rparr>)
   \<and> currentStory bob (initial\<lparr>currentIndex := 1\<rparr>) = None
   \<and> \<not> validCursor bob (initial\<lparr>currentIndex := 1\<rparr>)
   \<and> selectUser bob (Viewing alice (initial\<lparr>currentIndex := 1\<rparr>)) = Inl TypeError"
proof -
  have a: "selectUser alice Closed = Inr (Viewing alice initial)"
    by (simp add: selectUser_def mount_def currentStory_def js_nth_def alice_def initial_def)
  have b: "advance sample (Viewing alice initial) = Inr (Viewing alice (initial\<lparr>currentIndex := 1\<rparr>))"
    by (simp add: advance_def goToNextStory_def rerender_def currentStory_def js_nth_def
        alice_def initial_def)
  have c: "validCursor alice (initial\<lparr>currentIndex := 1\<rparr>)"
    by (simp add: validCursor_def alice_def initial_def)
  have d: "currentStory bob (initial\<lparr>currentIndex := 1\<rparr>) = None"
    by (simp add: currentStory_def js_nth_def bob_def initial_def)
  have e: "\<not> validCursor bob (initial\<lparr>currentIndex := 1\<rparr>)"
    by (simp add: validCursor_def bob_def initial_def)
  have f: "selectUser bob (Viewing alice (initial\<lparr>currentIndex := 1\<rparr>)) = Inl TypeError"
    by (simp add: selectUser_def rerender_def d)
  from a b c d e f show ?thesis by simp
qed


section \<open>Likes\<close>

lemma likeOf_upd: "likeOf (m(k \<mapsto> l)) k = l"
  by (simp add: likeOf_def)

lemma map_upd_likeOf: "m k \<noteq> None \<Longrightarrow> m(k \<mapsto> likeOf m k) = m"
  by (auto simp: likeOf_def fun_eq_iff)

lemma like_eta: "\<lparr>isLiked = isLiked l, count = count l\<rparr> = (l :: like)"
  by simp

lemma handleLike_failed:
  "handleLike (Some uid) (Some story) True v =
     (v\<lparr>isAnimating := True,
        likes := (likes v)(story_id story \<mapsto> likeOf (likes v) (story_id story))\<rparr>,
      [if isLiked (likeOf (likes v) (story_id story))
       then DeleteLike uid (story_id story) else InsertLike uid (story_id story)],
      [if isLiked (likeOf (likes v) (story_id story))
       then ''Failed to unlike story'' else ''Failed to like story''])"
proof (cases "isLiked (likeOf (likes v) (story_id story))")
  case True
  then have e: "\<lparr>isLiked = True, count = count (likeOf (likes v) (story_id story))\<rparr>
      = likeOf (likes v) (story_id story)"
    using like_eta [of "likeOf (likes v) (story_id story)"] by simp
  from True show ?thesis
    by (simp add: handleLike_def handleLike_start_def handleLike_resume_def Let_def e)
next
  case False
  then have e: "\<lparr>isLiked = False, count = count (likeOf (likes v) (story_id story))\<rparr>
      = likeOf (likes v) (story_id story)"
    using like_eta [of "likeOf (likes v) (story_id story)"] by simp
  from False show ?thesis
    by (simp add: handleLike_def handleLike_start_def handleLike_resume_def Let_def e)
qed

lemma handleLike_ok:
  "handleLike (Some uid) (Some story) False v =
     (v\<lparr>isAnimating := True,
        likes := (likes v)(story_id story \<mapsto>
          (if isLiked (likeOf (likes v) (story_id story))
           then \<lparr>isLiked = False, count = count (likeOf (likes v) (story_id story)) - 1\<rparr>
           else \<lparr>isLiked = True, count = count (likeOf (likes v) (story_id story)) + 1\<rparr>))\<rparr>,
      [if isLiked (likeOf (likes v) (story_id story))
       then DeleteLike uid (story_id story) else InsertLike uid (story_id story)],
      [])"
  by (simp add: handleLike_def handleLike_start_def handleLike_resume_def Let_def)

text \<open>
  Claim C3. When the remote write of a toggle fails, in the like direction as in the unlike
  direction, the like state of the story afterwards is the one before the toggle: the map
  is the old map with the story bound to its old state, so it is the old map itself when
  the story had an entry. One delete or insert was issued and one failure toast is shown.
\<close>

theorem like_rollback:
  assumes "handleLike (Some uid) (Some story) True v = (v', reqs, msgs)"
  shows "likeOf (likes v') (story_id story) = likeOf (likes v) (story_id story)
     \<and> likes v' = (likes v)(story_id story \<mapsto> likeOf (likes v) (story_id story))
     \<and> (likes v (story_id story) \<noteq> None \<longrightarrow> likes v' = likes v)
     \<and> reqs = [if isLiked (likeOf (likes v) (story_id story))
                then DeleteLike uid (story_id story) else InsertLike uid (story_id story)]
     \<and> msgs = [if isLiked (likeOf (likes v) (story_id story))
                then ''Failed to unlike story'' else ''Failed to like story'']"
  using assms unfolding handleLike_failed
  by (auto simp: likeOf_upd map_upd_likeOf)

theorem like_rollback_witness:
  "handleLike (Some ''u-bob'') (Some (stories alice ! 0)) True
       (initial\<lparr>likes := [''a1'' \<mapsto> \<lparr>isLiked = False, count = 4\<rparr>]\<rparr>)
     = (initial\<lparr>likes := [''a1'' \<mapsto> \<lparr>isLiked = False, count = 4\<rparr>], isAnimating := True\<rparr>,
        [InsertLike ''u-bob'' ''a1''], [''Failed to like story''])
   \<and> handleLike (Some ''u-bob'') (Some (stories alice ! 0)) True
       (initial\<lparr>likes := [''a1'' \<mapsto> \<lparr>isLiked = True, count = 5\<rparr>]\<rparr>)
     = (initial\<lparr>likes := [''a1'' \<mapsto> \<lparr>isLiked = True, count = 5\<rparr>], isAnimating := True\<rparr>,
        [DeleteLike ''u-bob'' ''a1''], [''Failed to unlike story''])"
proof -
  let ?s = "stories alice ! 0"
  let ?v = "initial\<lparr>likes := [''a1'' \<mapsto> \<lparr>isLiked = False, count = 4\<rparr>]\<rparr>"
  let ?w = "initial\<lparr>likes := [''a1'' \<mapsto> \<lparr>isLiked = True, count = 5\<rparr>]\<rparr>"
  have sid: "story_id ?s = ''a1''" by (simp add: alice_def)
  obtain v' reqs msgs where r: "handleLike (Some ''u-bob'') (Some ?s) True ?v = (v', reqs, msgs)"
    by (metis prod_cases3)
  have anim: "isAnimating v' = True \<and> currentIndex v' = 0 \<and> progress v' = 0 \<and> isPaused v' = False"
    using r by (simp add: handleLike_failed initial_def) auto
  from like_rollback [OF r] sid
  have "likes v' = likes ?v" "reqs = [InsertLike ''u-bob'' ''a1'']" "msgs = [''Failed to like story'']"
    by (simp_all add: likeOf_def)
  with anim have a: "(v', reqs, msgs) = (?v\<lparr>isAnimating := True\<rparr>, [InsertLike ''u-bob'' ''a1''], [''Failed to like story''])"
    by (simp add: initial_def)
  obtain w' reqs2 msgs2 where r2: "handleLike (Some ''u-bob'') (Some ?s) True ?w = (w', reqs2, msgs2)"
    by (metis prod_cases3)
  have anim2: "isAnimating w' = True \<and> currentIndex w' = 0 \<and> progress w' = 0 \<and> isPaused w' = False"
    using r2 by (simp add: handleLike_failed initial_def) auto
  from like_rollback [OF r2] sid
  have "likes w' = likes ?w" "reqs2 = [DeleteLike ''u-bob'' ''a1'']" "msgs2 = [''Failed to unlike story'']"
    by (simp_all add: likeOf_def)
  with anim2 have b: "(w', reqs2, msgs2) = (?w\<lparr>isAnimating := True\<rparr>, [DeleteLike ''u-bob'' ''a1''], [''Failed to unlike story''])"
    by (simp add: initial_def)
  from a b r r2 show ?thesis by simp
qed

text \<open>
  Claim C4. Without a signed-in user the toggle is rejected with the sign-in notice: the
  hooks, and the like map with them, are unchanged and no remote write is issued.
\<close>

theorem unauthenticated_like_rejected:
  "handleLike_start None cs v = Rejected ''Please sign in to like stories''
   \<and> handleLike None cs failed v = (v, [], [''Please sign in to like stories''])"
  by (simp add: handleLike_def handleLike_start_def)

text \<open>
  Claim C8. Two toggles in succession whose remote writes both succeed bring the like
  state of the story back to what it was: the same flag and the same count.
\<close>

theorem like_toggle_twice:
  assumes "handleLike (Some uid) (Some story) False v = (v1, reqs1, msgs1)"
    and "handleLike (Some uid) (Some story) False v1 = (v2, reqs2, msgs2)"
  shows "likeOf (likes v2) (story_id story) = likeOf (likes v) (story_id story)
     \<and> likes v2 = (likes v)(story_id story \<mapsto> likeOf (likes v) (story_id story))
     \<and> msgs1 = [] \<and> msgs2 = []
     \<and> reqs1 @ reqs2 =
         (if isLiked (likeOf (likes v) (story_id story))
          then [DeleteLike uid (story_id story), InsertLike uid (story_id story)]
          else [InsertLike uid (story_id story), DeleteLike uid (story_id story)])"
proof (cases "isLiked (likeOf (likes v) (story_id story))")
  case True
  then have e: "\<lparr>isLiked = True, count = count (likeOf (likes v) (story_id story))\<rparr>
      = likeOf (likes v) (story_id story)"
    using like_eta [of "likeOf (likes v) (story_id story)"] by simp
  from True assms show ?thesis
    unfolding handleLike_ok by (auto simp: likeOf_upd e)
next
  case False
  then have e: "\<lparr>isLiked = False, count = count (likeOf (likes v) (story_id story))\<rparr>
      = likeOf (likes v) (story_id story)"
    using like_eta [of "likeOf (likes v) (story_id story)"] by simp
  from False assms show ?thesis
    unfolding handleLike_ok by (auto simp: likeOf_upd e)
qed

theorem like_toggle_twice_witness:
  "handleLike (Some ''u-bob'') (Some (stories alice ! 0)) False
       (initial\<lparr>likes := [''a1'' \<mapsto> \<lparr>isLiked = False, count = 4\<rparr>]\<rparr>)
     = (initial\<lparr>likes := [''a1'' \<mapsto> \<lparr>isLiked = True, count = 5\<rparr>], isAnimating := True\<rparr>,
        [InsertLike ''u-bob'' ''a1''], [])
   \<and> handleLike (Some ''u-bob'') (Some (stories alice ! 0)) False
       (initial\<lparr>likes := [''a1'' \<mapsto> \<lparr>isLiked = True, count = 5\<rparr>], isAnimating := True\<rparr>)
     = (initial\<lparr>likes := [''a1'' \<mapsto> \<lparr>isLiked = False, count = 4\<rparr>], isAnimating := True\<rparr>,
        [DeleteLike ''u-bob'' ''a1''], [])
   \<and> likeOf (likes (initial\<lparr>likes := [''a1'' \<mapsto> \<lparr>isLiked = False, count = 4\<rparr>],
                                isAnimating := True\<rparr>)) ''a1''
     = likeOf (likes (initial\<lparr>likes := [''a1'' \<mapsto> \<lparr>isLiked = False, count = 4\<rparr>]\<rparr>)) ''a1''"
proof -
  let ?s = "stories alice ! 0"
  let ?v = "initial\<lparr>likes := [''a1'' \<mapsto> \<lparr>isLiked = False, count = 4\<rparr>]\<rparr>"
  let ?v1 = "initial\<lparr>likes := [''a1'' \<mapsto> \<lparr>isLiked = True, count = 5\<rparr>], isAnimating := True\<rparr>"
  let ?v2 = "initial\<lparr>likes := [''a1'' \<mapsto> \<lparr>isLiked = False, count = 4\<rparr>], isAnimating := True\<rparr>"
  have sid: "story_id ?s = ''a1''" by (simp add: alice_def)
  have r1: "handleLike (Some ''u-bob'') (Some ?s) False ?v = (?v1, [InsertLike ''u-bob'' ''a1''], [])"
    by (simp add: handleLike_ok sid likeOf_def initial_def)
  have r2: "handleLike (Some ''u-bob'') (Some ?s) False ?v1 = (?v2, [DeleteLike ''u-bob'' ''a1''], [])"
    by (simp add: handleLike_ok sid likeOf_def initial_def)
  from like_toggle_twice [OF r1 r2] r1 r2 sid show ?thesis by simp
qed

text \<open>
  Claim C10. A story without an entry in the like map is treated as not liked with count
  0: the toggle takes the like direction, issues the remote insert and sets the local
  state to liked with count 1, whatever the remote table holds.
\<close>

theorem default_like_state:
  assumes "likes v (story_id story) = None"
  shows "handleLike_start (Some uid) (Some story) v =
       Pending (v\<lparr>isAnimating := True,
                  likes := (likes v)(story_id story \<mapsto> \<lparr>isLiked = True, count = 1\<rparr>)\<rparr>)
         (InsertLike uid (story_id story)) story \<lparr>isLiked = False, count = 0\<rparr>
     \<and> handleLike (Some uid) (Some story) False v =
       (v\<lparr>isAnimating := True,
          likes := (likes v)(story_id story \<mapsto> \<lparr>isLiked = True, count = 1\<rparr>)\<rparr>,
        [InsertLike uid (story_id story)], [])"
  using assms
  by (simp add: handleLike_def handleLike_start_def handleLike_resume_def likeOf_def Let_def)

theorem default_like_state_witness:
  "likes initial ''a1'' = None
   \<and> handleLike (Some ''u-bob'') (Some (stories alice ! 0)) False initial
     = (initial\<lparr>likes := [''a1'' \<mapsto> \<lparr>isLiked = True, count = 1\<rparr>], isAnimating := True\<rparr>,
        [InsertLike ''u-bob'' ''a1''], [])"
proof -
  have sid: "story_id (stories alice ! 0) = ''a1''" by (simp add: alice_def)
  have none: "likes initial (story_id (stories alice ! 0)) = None"
    by (simp add: sid initial_def)
  from default_like_state [OF none, of "''u-bob''"] sid none show ?thesis
    by (simp add: initial_def)
qed

end
